theory Spec2Isabelle
  imports Main "HOL-Library.Multiset"
begin

section \<open>The persisted data model\<close>

text \<open>
  The repository declares its tables as SQLAlchemy model classes. Each class becomes a
  record holding the columns that the modelled operations read; the remaining columns of
  a class (titles, URLs, metrics, timestamps) are never read by any method and live in the
  record's extension slot. Integer columns are Python integers, so they are \<open>int\<close>; a
  nullable column is an \<open>option\<close>.
\<close>

record organization =
  org_id :: int
  org_name :: string
  org_parent_id :: "int option"

record author =
  author_id :: int
  author_name :: string
  author_organization_id :: "int option"

record coauthor_row =
  co_author_id :: int
  co_coauthor_id :: int

record author_citations_per_year =
  acy_author_id :: int
  acy_year :: int
  acy_citations :: int

record publication =
  pub_id :: int
  pub_title :: "string option"

record publication_citations_per_year =
  pcy_publication_id :: int
  pcy_year :: int
  pcy_citations :: int

text \<open>
  The stored state: one list of rows per table, in storage order. The relationships of
  the hierarchy, of the authors of an organization and of the coauthors read the matching
  rows in that order; the two citation series take the order in which the store returns
  the rows as a parameter.
\<close>

record database =
  organization_table :: "organization list"
  author_table :: "author list"
  coauthor_table :: "coauthor_row list"
  author_citations_per_year_table :: "author_citations_per_year list"
  publication_table :: "publication list"
  publication_citations_per_year_table :: "publication_citations_per_year list"

text \<open>
  \<open>id\<close> is the primary key of \<open>organization\<close> and of \<open>author\<close>: no two rows of a table
  share it.
\<close>

definition wf_db :: "database \<Rightarrow> bool" where
  "wf_db db \<longleftrightarrow>
     distinct (map org_id (organization_table db)) \<and>
     distinct (map author_id (author_table db))"

section \<open>Relationships\<close>

text \<open>
  \<open>Organization.parent\<close> (\<open>db.relation('Organization', remote_side=[id], backref="children")\<close>):
  the row whose \<open>id\<close> is this row's \<open>parent_id\<close>; Python's \<open>None\<close> when the column is
  null. \<open>children\<close> is its back reference: the rows whose \<open>parent_id\<close> is this row's \<open>id\<close>.
\<close>

definition parent :: "database \<Rightarrow> organization \<Rightarrow> organization option" where
  "parent db org =
     (case org_parent_id org of
        None \<Rightarrow> None
      | Some pid \<Rightarrow> find (\<lambda>p. org_id p = pid) (organization_table db))"

definition children :: "database \<Rightarrow> organization \<Rightarrow> organization list" where
  "children db org =
     filter (\<lambda>c. org_parent_id c = Some (org_id org)) (organization_table db)"

text \<open>
  \<open>Author.organization\<close> (\<open>db.relation('Organization', foreign_keys=[organization_id],
  backref="authors")\<close>) and its back reference \<open>Organization.authors\<close>.
\<close>

definition organization :: "database \<Rightarrow> author \<Rightarrow> organization option" where
  "organization db a =
     (case author_organization_id a of
        None \<Rightarrow> None
      | Some oid \<Rightarrow> find (\<lambda>g. org_id g = oid) (organization_table db))"

definition authors :: "database \<Rightarrow> organization \<Rightarrow> author list" where
  "authors db org =
     filter (\<lambda>a. author_organization_id a = Some (org_id org)) (author_table db)"

section \<open>Python values\<close>

text \<open>\<open>sep.join(xs)\<close> of Python's \<open>str\<close>.\<close>

fun join :: "string \<Rightarrow> string list \<Rightarrow> string" where
  "join sep [] = []"
| "join sep [x] = x"
| "join sep (x # y # ys) = x @ sep @ join sep (y # ys)"

text \<open>\<open>ancestor_tree\<close> returns either \<open>None\<close> or a \<open>str\<close>.\<close>

datatype py_value = PyNone | PyStr string

section \<open>Organization: the ancestor walk\<close>

text \<open>
  The methods below recurse along the parent pointers with nothing that bounds the depth.
  The first argument of each model is the number of nested calls the run may use; \<open>None\<close>
  says that the run needed more. A method returns on an input when some depth gives
  \<open>Some\<close>, and never returns when every depth gives \<open>None\<close>.
\<close>

fun ancestors :: "nat \<Rightarrow> database \<Rightarrow> organization \<Rightarrow> organization list option" where
  "ancestors 0 db org = None"
| "ancestors (Suc n) db org =
     (case parent db org of
        None \<Rightarrow> Some []
      | Some p \<Rightarrow>
          (case ancestors n db p of
             None \<Rightarrow> None
           | Some l \<Rightarrow> Some ([p] @ l)))"

definition ancestor_ids :: "nat \<Rightarrow> database \<Rightarrow> organization \<Rightarrow> int list option" where
  "ancestor_ids n db org = map_option (map org_id) (ancestors n db org)"

definition ancestor_tree :: "nat \<Rightarrow> database \<Rightarrow> organization \<Rightarrow> py_value option" where
  "ancestor_tree n db org =
     (case ancestors n db org of
        None \<Rightarrow> None
      | Some anc \<Rightarrow>
          Some (if anc = [] then PyNone
                else PyStr (join '' :: '' (map org_name (rev anc)))))"

section \<open>Organization: the descendant walk\<close>

definition children_ids :: "database \<Rightarrow> organization \<Rightarrow> int list" where
  "children_ids db org = map org_id (children db org)"

text \<open>
  The body of the \<open>for c in self.children\<close> loop of \<open>descendants\<close>: \<open>l.append(c)\<close>, then
  \<open>l.extend(c.descendants())\<close>. The recursive call is the parameter \<open>f\<close>.
\<close>

fun descendants_loop ::
  "(organization \<Rightarrow> organization list option) \<Rightarrow> organization list \<Rightarrow>
   organization list \<Rightarrow> organization list option" where
  "descendants_loop f [] l = Some l"
| "descendants_loop f (c # cs) l =
     (case f c of
        None \<Rightarrow> None
      | Some d \<Rightarrow> descendants_loop f cs ((l @ [c]) @ d))"

primrec descendants :: "nat \<Rightarrow> database \<Rightarrow> organization \<Rightarrow> organization list option" where
  "descendants 0 db org = None"
| "descendants (Suc n) db org =
     (if children db org = [] then Some []
      else descendants_loop (descendants n db) (children db org) [])"

definition descendant_ids :: "nat \<Rightarrow> database \<Rightarrow> organization \<Rightarrow> int list option" where
  "descendant_ids n db org = map_option (map org_id) (descendants n db org)"

definition number_of_authors :: "database \<Rightarrow> organization \<Rightarrow> nat" where
  "number_of_authors db org = length (authors db org)"

text \<open>One dictionary of the list that \<open>descendant_tree\<close> builds.\<close>

datatype tree_entry =
  Entry (entry_id: int) (entry_name: string) (entry_children: "tree_entry list")
    (entry_number_of_authors: nat)

fun descendant_tree_loop ::
  "(organization \<Rightarrow> tree_entry list option) \<Rightarrow> database \<Rightarrow> organization list \<Rightarrow>
   tree_entry list \<Rightarrow> tree_entry list option" where
  "descendant_tree_loop f db [] l = Some l"
| "descendant_tree_loop f db (c # cs) l =
     (case f c of
        None \<Rightarrow> None
      | Some t \<Rightarrow>
          descendant_tree_loop f db cs
            (l @ [Entry (org_id c) (org_name c) t (number_of_authors db c)]))"

primrec descendant_tree :: "nat \<Rightarrow> database \<Rightarrow> organization \<Rightarrow> tree_entry list option" where
  "descendant_tree 0 db org = None"
| "descendant_tree (Suc n) db org =
     descendant_tree_loop (descendant_tree n db) db (children db org) []"

section \<open>Author: the path to the root\<close>

definition organization_tree :: "nat \<Rightarrow> database \<Rightarrow> author \<Rightarrow> string option" where
  "organization_tree n db a =
     (case organization db a of
        None \<Rightarrow> Some []
      | Some g \<Rightarrow>
          (case ancestors n db g of
             None \<Rightarrow> None
           | Some anc \<Rightarrow> Some (join '' :: '' (map org_name (rev ([g] @ anc))))))"

definition organization_ids :: "nat \<Rightarrow> database \<Rightarrow> author \<Rightarrow> int list option" where
  "organization_ids n db a =
     (case organization db a of
        None \<Rightarrow> Some []
      | Some g \<Rightarrow>
          (case ancestors n db g of
             None \<Rightarrow> None
           | Some anc \<Rightarrow> Some (map org_id (rev ([g] @ anc)))))"

section \<open>Author: coauthors and citation series\<close>

text \<open>
  \<open>Author.coauthors\<close> is a relationship through the join table \<open>coauthor\<close> with
  \<open>primaryjoin=id == coauthors.c.author_id\<close> and
  \<open>secondaryjoin=id == coauthors.c.coauthor_id\<close>: the rows of the join table whose
  \<open>author_id\<close> is this author's \<open>id\<close> are selected, and each contributes the author whose
  \<open>id\<close> is the row's \<open>coauthor_id\<close>.
\<close>

definition coauthors :: "database \<Rightarrow> author \<Rightarrow> author list" where
  "coauthors db a =
     concat (map (\<lambda>e. filter (\<lambda>b. author_id b = co_coauthor_id e) (author_table db))
       (filter (\<lambda>e. co_author_id e = author_id a) (coauthor_table db)))"

text \<open>Storing one directed edge from \<open>x\<close> to \<open>y\<close>: one more row of the join table.\<close>

definition insert_coauthor_edge :: "database \<Rightarrow> author \<Rightarrow> author \<Rightarrow> database" where
  "insert_coauthor_edge db x y =
     db\<lparr>coauthor_table := coauthor_table db @
       [\<lparr>co_author_id = author_id x, co_coauthor_id = author_id y\<rparr>]\<rparr>"

text \<open>
  \<open>Author.citations_per_year\<close> is declared with \<open>order_by="AuthorCitationsPerYear.year"\<close>;
  \<open>Publication.citations_per_year\<close> has no \<open>order_by\<close>. A query without \<open>ORDER BY\<close> returns
  the matching rows in whatever order the store chooses. That choice is the argument
  \<open>store_order\<close>: it maps the matching rows to the list that the store returns. With
  \<open>order_by\<close> the query sorts by year; without it the rows are read as the store returns
  them.
\<close>

definition Author_citations_per_year ::
  "(author_citations_per_year list \<Rightarrow> author_citations_per_year list) \<Rightarrow>
   database \<Rightarrow> author \<Rightarrow> author_citations_per_year list" where
  "Author_citations_per_year store_order db a =
     sort_key acy_year
       (store_order
         (filter (\<lambda>r. acy_author_id r = author_id a) (author_citations_per_year_table db)))"

definition Publication_citations_per_year ::
  "(publication_citations_per_year list \<Rightarrow> publication_citations_per_year list) \<Rightarrow>
   database \<Rightarrow> publication \<Rightarrow> publication_citations_per_year list" where
  "Publication_citations_per_year store_order db p =
     store_order
       (filter (\<lambda>r. pcy_publication_id r = pub_id p)
         (publication_citations_per_year_table db))"

section \<open>Column declarations\<close>

text \<open>
  A \<open>db.Column(...)\<close> declaration, as far as it decides which values may be missing:
  the column's name, its \<open>primary_key\<close> and \<open>autoincrement\<close> arguments, and its
  \<open>nullable\<close> argument when the declaration gives one.
\<close>

record column =
  col_name :: string
  col_primary_key :: bool
  col_autoincrement :: bool
  col_nullable :: "bool option"

text \<open>
  SQLAlchemy's rule for a column's nullability: the \<open>nullable\<close> argument when given,
  otherwise every column but a primary key is nullable.
\<close>

definition nullable :: "column \<Rightarrow> bool" where
  "nullable c = (case col_nullable c of Some b \<Rightarrow> b | None \<Rightarrow> \<not> col_primary_key c)"

text \<open>The columns of class \<open>Suggestions\<close>, in declaration order.\<close>

definition Suggestions_id :: column where
  "Suggestions_id =
     \<lparr>col_name = ''id'', col_primary_key = True, col_autoincrement = True,
      col_nullable = None\<rparr>"

definition Suggestions_author_id :: column where
  "Suggestions_author_id =
     \<lparr>col_name = ''author_id'', col_primary_key = False, col_autoincrement = False,
      col_nullable = Some True\<rparr>"

definition Suggestions_benchmark_id :: column where
  "Suggestions_benchmark_id =
     \<lparr>col_name = ''benchmark_id'', col_primary_key = False, col_autoincrement = False,
      col_nullable = None\<rparr>"

definition Suggestions_scholar_website :: column where
  "Suggestions_scholar_website =
     \<lparr>col_name = ''scholar_website'', col_primary_key = False, col_autoincrement = False,
      col_nullable = None\<rparr>"

definition Suggestions_rationale :: column where
  "Suggestions_rationale =
     \<lparr>col_name = ''rationale'', col_primary_key = False, col_autoincrement = False,
      col_nullable = None\<rparr>"

definition Suggestions_created :: column where
  "Suggestions_created =
     \<lparr>col_name = ''created'', col_primary_key = False, col_autoincrement = False,
      col_nullable = None\<rparr>"

definition Suggestions_columns :: "column list" where
  "Suggestions_columns =
     [Suggestions_id, Suggestions_author_id, Suggestions_benchmark_id,
      Suggestions_scholar_website, Suggestions_rationale, Suggestions_created]"

text \<open>
  The store accepts a new row, given as the names of the columns that receive a value,
  when every column left out is nullable or is filled in by the store itself.
\<close>

definition accepts_row :: "column list \<Rightarrow> string list \<Rightarrow> bool" where
  "accepts_row cols given \<longleftrightarrow>
     list_all (\<lambda>c. nullable c \<or> col_autoincrement c \<or> col_name c \<in> set given) cols"

section \<open>Notions used to state the properties\<close>

text \<open>
  \<open>cs\<close> is the chain from the direct parent of \<open>org\<close> up to and including the root of
  its tree, nearest first: every element is the parent of the one before it (the first
  one the parent of \<open>org\<close> itself), and the last one has no parent.
\<close>

definition ancestor_chain :: "database \<Rightarrow> organization \<Rightarrow> organization list \<Rightarrow> bool" where
  "ancestor_chain db org cs \<longleftrightarrow>
     (\<forall>i<length cs. parent db ((org # cs) ! i) = Some (cs ! i)) \<and>
     parent db (last (org # cs)) = None"

text \<open>The parent pointers of the stored organizations, as a relation from child to parent.\<close>

definition parent_rel :: "database \<Rightarrow> (organization \<times> organization) set" where
  "parent_rel db = {(c, p). c \<in> set (organization_table db) \<and> parent db c = Some p}"

text \<open>
  Following parent pointers from \<open>g\<close> leads into a cycle: some organization reachable from
  \<open>g\<close> (possibly \<open>g\<close> itself) is its own proper ancestor.
\<close>

definition reaches_cycle :: "database \<Rightarrow> organization \<Rightarrow> bool" where
  "reaches_cycle db g \<longleftrightarrow> (\<exists>p. (g, p) \<in> (parent_rel db)\<^sup>* \<and> (p, p) \<in> (parent_rel db)\<^sup>+)"

text \<open>
  The children relation of the stored organizations, from an organization to each of its
  children.
\<close>

definition children_rel :: "database \<Rightarrow> (organization \<times> organization) set" where
  "children_rel db =
     {(p, c). p \<in> set (organization_table db) \<and> c \<in> set (children db p)}"

text \<open>
  A store returns the rows it is asked for, each as often as it is stored, in some order.
\<close>

definition returns_the_rows :: "('r list \<Rightarrow> 'r list) \<Rightarrow> bool" where
  "returns_the_rows store_order \<longleftrightarrow> (\<forall>xs. mset (store_order xs) = mset xs)"

section \<open>Example data\<close>

text \<open>
  The hierarchy of the scenario: root \<open>A\<close>, its child \<open>B\<close>, and \<open>C\<close> below \<open>B\<close>; author \<open>X\<close>
  belongs to \<open>C\<close>, author \<open>Y\<close> to no organization.
\<close>

definition org_a :: organization where
  "org_a = \<lparr>org_id = 1, org_name = ''A'', org_parent_id = None\<rparr>"

definition org_b :: organization where
  "org_b = \<lparr>org_id = 2, org_name = ''B'', org_parent_id = Some 1\<rparr>"

definition org_c :: organization where
  "org_c = \<lparr>org_id = 3, org_name = ''C'', org_parent_id = Some 2\<rparr>"

definition author_x :: author where
  "author_x = \<lparr>author_id = 1, author_name = ''X'', author_organization_id = Some 3\<rparr>"

definition author_y :: author where
  "author_y = \<lparr>author_id = 2, author_name = ''Y'', author_organization_id = None\<rparr>"

definition example_db :: database where
  "example_db =
     \<lparr>organization_table = [org_a, org_b, org_c],
      author_table = [author_x, author_y],
      coauthor_table = [],
      author_citations_per_year_table = [],
      publication_table = [],
      publication_citations_per_year_table = []\<rparr>"

lemmas example_defs = example_db_def org_a_def org_b_def org_c_def author_x_def author_y_def

text \<open>
  A cyclic parent assignment: \<open>P\<close> and \<open>Q\<close> are each other's parent; author \<open>Z\<close> belongs
  to \<open>P\<close>.
\<close>

definition org_p :: organization where
  "org_p = \<lparr>org_id = 1, org_name = ''P'', org_parent_id = Some 2\<rparr>"

definition org_q :: organization where
  "org_q = \<lparr>org_id = 2, org_name = ''Q'', org_parent_id = Some 1\<rparr>"

definition author_z :: author where
  "author_z = \<lparr>author_id = 1, author_name = ''Z'', author_organization_id = Some 1\<rparr>"

definition cyclic_db :: database where
  "cyclic_db =
     \<lparr>organization_table = [org_p, org_q],
      author_table = [author_z],
      coauthor_table = [],
      author_citations_per_year_table = [],
      publication_table = [],
      publication_citations_per_year_table = []\<rparr>"

lemmas cyclic_defs = cyclic_db_def org_p_def org_q_def author_z_def

text \<open>
  A publication whose two per-year rows were stored with the later year first, and the
  same two rows for an author.
\<close>

definition pub_1 :: publication where
  "pub_1 = \<lparr>pub_id = 1, pub_title = Some ''T''\<rparr>"

definition acy_2014 :: author_citations_per_year where
  "acy_2014 = \<lparr>acy_author_id = 2, acy_year = 2014, acy_citations = 3\<rparr>"

definition acy_2015 :: author_citations_per_year where
  "acy_2015 = \<lparr>acy_author_id = 2, acy_year = 2015, acy_citations = 7\<rparr>"

definition pcy_2014 :: publication_citations_per_year where
  "pcy_2014 = \<lparr>pcy_publication_id = 1, pcy_year = 2014, pcy_citations = 3\<rparr>"

definition pcy_2015 :: publication_citations_per_year where
  "pcy_2015 = \<lparr>pcy_publication_id = 1, pcy_year = 2015, pcy_citations = 7\<rparr>"

definition series_db :: database where
  "series_db =
     \<lparr>organization_table = [],
      author_table = [author_y],
      coauthor_table = [],
      author_citations_per_year_table = [acy_2015, acy_2014],
      publication_table = [pub_1],
      publication_citations_per_year_table = [pcy_2015, pcy_2014]\<rparr>"

lemmas series_defs =
  series_db_def pub_1_def author_y_def acy_2014_def acy_2015_def pcy_2014_def pcy_2015_def

section \<open>Facts about the parent relation and the ancestor walk\<close>

lemma ancestor_chain_Nil: "ancestor_chain db org [] \<longleftrightarrow> parent db org = None"
  by (simp add: ancestor_chain_def)

lemma ancestor_chain_Cons:
  "ancestor_chain db org (p # cs) \<longleftrightarrow> parent db org = Some p \<and> ancestor_chain db p cs"
  by (auto simp: ancestor_chain_def All_less_Suc2 nth_Cons split: nat.splits)

lemma ancestors_of_chain:
  "ancestor_chain db org cs \<Longrightarrow> length cs < n \<Longrightarrow> ancestors n db org = Some cs"
proof (induction cs arbitrary: org n)
  case Nil
  then obtain k where "n = Suc k" by (cases n) auto
  with Nil show ?case by (simp add: ancestor_chain_Nil)
next
  case (Cons p cs)
  then obtain k where k: "n = Suc k" by (cases n) auto
  from Cons.prems have "parent db org = Some p" "ancestor_chain db p cs"
    by (simp_all add: ancestor_chain_Cons)
  moreover from Cons.prems k have "length cs < k" by simp
  ultimately show ?case using Cons.IH k by simp
qed

lemma ancestors_is_chain:
  "ancestors n db org = Some cs \<Longrightarrow> ancestor_chain db org cs \<and> length cs < n"
proof (induction n arbitrary: org cs)
  case 0
  then show ?case by simp
next
  case (Suc n)
  then show ?case
    by (auto simp: ancestor_chain_Nil ancestor_chain_Cons split: option.splits)
qed

lemma parent_SomeD:
  "parent db c = Some p \<Longrightarrow>
     p \<in> set (organization_table db) \<and> org_parent_id c = Some (org_id p)"
  by (auto simp: parent_def find_Some_iff split: option.splits)

lemma find_by_key:
  "distinct (map f xs) \<Longrightarrow> x \<in> set xs \<Longrightarrow> find (\<lambda>y. f y = f x) xs = Some x"
  by (induction xs) auto

lemma parent_of_child:
  "wf_db db \<Longrightarrow> g \<in> set (organization_table db) \<Longrightarrow> org_parent_id c = Some (org_id g) \<Longrightarrow>
     parent db c = Some g"
  by (simp add: parent_def wf_db_def find_by_key)

lemma parent_rel_range: "(c, p) \<in> parent_rel db \<Longrightarrow>
  c \<in> set (organization_table db) \<and> p \<in> set (organization_table db)"
  by (auto simp: parent_rel_def dest: parent_SomeD)

lemma finite_parent_rel: "finite (parent_rel db)"
proof (rule finite_subset)
  show "parent_rel db \<subseteq> set (organization_table db) \<times> set (organization_table db)"
    by (auto dest: parent_rel_range)
qed simp

lemma single_valued_parent_rel: "single_valued (parent_rel db)"
  by (auto simp: single_valued_def parent_rel_def)

lemma children_iff:
  assumes "wf_db db" "g \<in> set (organization_table db)"
  shows "c \<in> set (children db g) \<longleftrightarrow> (c, g) \<in> parent_rel db"
  using assms by (auto simp: children_def parent_rel_def parent_of_child dest: parent_SomeD)

lemma child_of_parent_rel: "(c, g) \<in> parent_rel db \<Longrightarrow> c \<in> set (children db g)"
  by (auto simp: children_def parent_rel_def dest: parent_SomeD)

lemma reach_induct:
  assumes fin: "finite r"
    and noc: "\<And>p. (x, p) \<in> r\<^sup>* \<Longrightarrow> (p, p) \<notin> r\<^sup>+"
    and step: "\<And>p. (x, p) \<in> r\<^sup>* \<Longrightarrow> (\<And>q. (p, q) \<in> r \<Longrightarrow> P q) \<Longrightarrow> P p"
  shows "P x"
proof -
  define r' where "r' = {(p, q). (p, q) \<in> r \<and> (x, p) \<in> r\<^sup>*}"
  have sub: "r' \<subseteq> r" by (auto simp: r'_def)
  then have "finite r'" using fin by (rule finite_subset)
  moreover have "acyclic r'"
    unfolding acyclic_def
  proof (intro allI notI)
    fix p assume pp: "(p, p) \<in> r'\<^sup>+"
    then have "(p, p) \<in> r\<^sup>+" using trancl_mono[OF _ sub] by blast
    moreover from pp obtain z where "(p, z) \<in> r'" by (blast dest: tranclD)
    then have "(x, p) \<in> r\<^sup>*" by (simp add: r'_def)
    ultimately show False using noc by blast
  qed
  ultimately have "wf (r'\<inverse>)" by (rule finite_acyclic_wf_converse)
  then have "(x, p) \<in> r\<^sup>* \<longrightarrow> P p" for p
  proof (induction p rule: wf_induct_rule)
    case (less p)
    show ?case
    proof
      assume xp: "(x, p) \<in> r\<^sup>*"
      show "P p"
      proof (rule step[OF xp])
        fix q assume pq: "(p, q) \<in> r"
        then have "(q, p) \<in> r'\<inverse>" using xp by (simp add: r'_def)
        moreover have "(x, q) \<in> r\<^sup>*" using xp pq by (rule rtrancl_into_rtrancl)
        ultimately show "P q" using less by blast
      qed
    qed
  qed
  then show ?thesis by blast
qed

lemma cycle_step:
  assumes "(g, g) \<in> r\<^sup>+"
  shows "\<exists>p. (g, p) \<in> r \<and> (p, p) \<in> r\<^sup>+"
proof -
  from assms obtain z where "(g, z) \<in> r" "(z, g) \<in> r\<^sup>*" by (blast dest: tranclD)
  then have "(z, z) \<in> r\<^sup>+" by (blast intro: rtrancl_into_trancl1)
  with \<open>(g, z) \<in> r\<close> show ?thesis by blast
qed

lemma cycle_step_back:
  assumes "(g, g) \<in> r\<^sup>+"
  shows "\<exists>c. (c, g) \<in> r \<and> (c, c) \<in> r\<^sup>+"
proof -
  from assms obtain z where "(g, z) \<in> r\<^sup>*" "(z, g) \<in> r" by (blast dest: tranclD2)
  then have "(z, z) \<in> r\<^sup>+" by (blast intro: rtrancl_into_trancl2)
  with \<open>(z, g) \<in> r\<close> show ?thesis by blast
qed

lemma cycle_upwards:
  assumes sv: "single_valued r" and "(c, g) \<in> r\<^sup>*" and "(c, c) \<in> r\<^sup>+"
  shows "(g, g) \<in> r\<^sup>+"
  using assms(2,3)
proof (induction rule: rtrancl_induct)
  case base
  then show ?case .
next
  case (step y z)
  then have "(y, y) \<in> r\<^sup>+" by simp
  then obtain w where "(y, w) \<in> r" "(w, y) \<in> r\<^sup>*" by (blast dest: tranclD)
  with sv step.hyps(2) have "(z, y) \<in> r\<^sup>*" by (auto dest: single_valuedD)
  with step.hyps(2) show ?case by (blast intro: rtrancl_into_trancl1)
qed

lemma reachable_in_table:
  "(g, p) \<in> (parent_rel db)\<^sup>* \<Longrightarrow> g \<in> set (organization_table db) \<Longrightarrow>
     p \<in> set (organization_table db)"
  by (induction rule: rtrancl_induct) (auto dest: parent_rel_range)

lemma parent_relD: "(c, p) \<in> parent_rel db \<Longrightarrow> parent db c = Some p"
  by (simp add: parent_rel_def)

lemma reaches_cycleI:
  "(g, p) \<in> (parent_rel db)\<^sup>* \<Longrightarrow> (p, p) \<in> (parent_rel db)\<^sup>+ \<Longrightarrow> reaches_cycle db g"
  unfolding reaches_cycle_def by (rule exI, rule conjI)

lemma reaches_cycle_step:
  assumes "reaches_cycle db g"
  shows "\<exists>q. parent db g = Some q \<and> reaches_cycle db q"
proof -
  from assms obtain p where gp: "(g, p) \<in> (parent_rel db)\<^sup>*" and pp: "(p, p) \<in> (parent_rel db)\<^sup>+"
    unfolding reaches_cycle_def by (elim exE conjE)
  from gp show ?thesis
  proof (cases rule: converse_rtranclE)
    case base
    with pp have "(g, g) \<in> (parent_rel db)\<^sup>+" by simp
    from cycle_step[OF this]
    obtain q where q: "(g, q) \<in> parent_rel db" "(q, q) \<in> (parent_rel db)\<^sup>+"
      by (elim exE conjE)
    have "reaches_cycle db q" using rtrancl.rtrancl_refl q(2) by (rule reaches_cycleI)
    with parent_relD[OF q(1)] show ?thesis by (intro exI conjI)
  next
    case (step q)
    from step(2) pp have "reaches_cycle db q" by (rule reaches_cycleI)
    with parent_relD[OF step(1)] show ?thesis by (intro exI conjI)
  qed
qed

lemma ancestors_reaches_cycle: "reaches_cycle db g \<Longrightarrow> ancestors n db g = None"
proof (induction n arbitrary: g)
  case 0
  show ?case by simp
next
  case (Suc n)
  from reaches_cycle_step[OF Suc.prems] obtain q
    where "parent db g = Some q" "reaches_cycle db q" by blast
  with Suc.IH show ?case by simp
qed

lemma chain_of_acyclic:
  assumes g: "g \<in> set (organization_table db)" and noc: "\<not> reaches_cycle db g"
  shows "\<exists>cs. ancestor_chain db g cs"
proof (rule reach_induct[where r = "parent_rel db" and x = g
      and P = "\<lambda>g. \<exists>cs. ancestor_chain db g cs"])
  show "finite (parent_rel db)" by (rule finite_parent_rel)
next
  fix p assume "(g, p) \<in> (parent_rel db)\<^sup>*"
  with noc show "(p, p) \<notin> (parent_rel db)\<^sup>+" unfolding reaches_cycle_def by blast
next
  fix p
  assume gp: "(g, p) \<in> (parent_rel db)\<^sup>*"
    and IH: "\<And>q. (p, q) \<in> parent_rel db \<Longrightarrow> \<exists>cs. ancestor_chain db q cs"
  from gp g have p: "p \<in> set (organization_table db)"
    by (rule reachable_in_table)
  show "\<exists>cs. ancestor_chain db p cs"
  proof (cases "parent db p")
    case None
    then have "ancestor_chain db p []" by (simp add: ancestor_chain_Nil)
    then show ?thesis by (rule exI)
  next
    case (Some q)
    with p have "(p, q) \<in> parent_rel db" by (simp add: parent_rel_def)
    from IH[OF this] obtain cs where "ancestor_chain db q cs" ..
    with Some have "ancestor_chain db p (q # cs)" by (simp add: ancestor_chain_Cons)
    then show ?thesis by (rule exI)
  qed
qed

section \<open>The path of an author's organization\<close>

text \<open>
  C1. When the organization \<open>g\<close> of an author lies on a parent chain that ends at a root
  (\<open>cs\<close> is that chain, from the parent of \<open>g\<close> to the root), \<open>organization_tree\<close>
  returns the names of the chain from the root down to \<open>g\<close> itself, joined by
  \<open>" :: "\<close>, as soon as the walk is allowed more nested calls than the chain is long. For
  an author without organization it returns the empty string.
\<close>

theorem organization_tree_root_first_path:
  "(organization db a = None \<longrightarrow> organization_tree n db a = Some []) \<and>
   (\<forall>g cs. organization db a = Some g \<and> ancestor_chain db g cs \<and> length cs < n \<longrightarrow>
      organization_tree n db a = Some (join '' :: '' (map org_name (rev cs @ [g]))))"
proof (intro conjI allI impI)
  assume "organization db a = None"
  then show "organization_tree n db a = Some []"
    by (simp add: organization_tree_def)
next
  fix g cs
  assume h: "organization db a = Some g \<and> ancestor_chain db g cs \<and> length cs < n"
  then have "ancestors n db g = Some cs" by (simp add: ancestors_of_chain)
  with h show "organization_tree n db a = Some (join '' :: '' (map org_name (rev cs @ [g])))"
    by (simp add: organization_tree_def)
qed

theorem organization_tree_root_first_path_witness:
  "organization example_db author_x = Some org_c \<and>
   ancestor_chain example_db org_c [org_b, org_a] \<and>
   organization_tree 3 example_db author_x = Some ''A :: B :: C'' \<and>
   organization example_db author_y = None \<and>
   organization_tree 3 example_db author_y = Some []"
proof -
  have x: "organization example_db author_x = Some org_c"
    by (simp add: organization_def example_defs)
  have y: "organization example_db author_y = None"
    by (simp add: organization_def example_defs)
  have c: "ancestor_chain example_db org_c [org_b, org_a]"
    by (simp add: ancestor_chain_Cons ancestor_chain_Nil parent_def example_defs)
  have n: "org_name org_a = ''A''" "org_name org_b = ''B''" "org_name org_c = ''C''"
    by (simp_all add: example_defs)
  from organization_tree_root_first_path[of example_db author_x 3, THEN conjunct2,
      rule_format, of org_c "[org_b, org_a]"] x c
  have "organization_tree 3 example_db author_x = Some ''A :: B :: C''"
    by (simp add: n)
  moreover from organization_tree_root_first_path[of example_db author_y 3] y
  have "organization_tree 3 example_db author_y = Some []"
    by simp
  ultimately show ?thesis using x y c by simp
qed

section \<open>Ancestors and their rendering\<close>

text \<open>
  C2. \<open>ancestors\<close> returns exactly the chain from the direct parent up to and including
  the root, nearest first (it returns \<open>cs\<close> if and only if \<open>cs\<close> is that chain and the walk
  may nest deeper than the chain is long); the chain is empty exactly when the
  organization has no parent. When the chain is not empty, \<open>ancestor_tree\<close> is the names of
  the reversed chain joined by \<open>" :: "\<close>; for a root it is the absent value.
\<close>

theorem ancestors_chain_and_ancestor_tree:
  "(ancestors n db org = Some cs \<longleftrightarrow> ancestor_chain db org cs \<and> length cs < n) \<and>
   (ancestor_chain db org cs \<and> length cs < n \<longrightarrow>
      (cs = [] \<longleftrightarrow> parent db org = None) \<and>
      (cs \<noteq> [] \<longrightarrow>
         ancestor_tree n db org = Some (PyStr (join '' :: '' (map org_name (rev cs))))) \<and>
      (cs = [] \<longrightarrow> ancestor_tree n db org = Some PyNone))"
proof (rule conjI, goal_cases)
  case 1
  show ?case
    using ancestors_is_chain ancestors_of_chain by blast
next
  case 2
  show ?case
  proof (rule impI)
  assume h: "ancestor_chain db org cs \<and> length cs < n"
  then have a: "ancestors n db org = Some cs" by (simp add: ancestors_of_chain)
  show "(cs = [] \<longleftrightarrow> parent db org = None) \<and>
      (cs \<noteq> [] \<longrightarrow>
         ancestor_tree n db org = Some (PyStr (join '' :: '' (map org_name (rev cs))))) \<and>
      (cs = [] \<longrightarrow> ancestor_tree n db org = Some PyNone)"
  proof (cases cs)
    case Nil
    with h a show ?thesis by (simp add: ancestor_tree_def ancestor_chain_Nil)
  next
    case (Cons p ps)
    with h a show ?thesis by (simp add: ancestor_tree_def ancestor_chain_Cons)
  qed
  qed
qed

theorem ancestors_chain_and_ancestor_tree_witness:
  "ancestor_chain example_db org_c [org_b, org_a] \<and>
   ancestors 3 example_db org_c = Some [org_b, org_a] \<and>
   ancestor_tree 3 example_db org_c = Some (PyStr ''A :: B'') \<and>
   ancestor_chain example_db org_a [] \<and>
   ancestors 3 example_db org_a = Some [] \<and>
   ancestor_tree 3 example_db org_a = Some PyNone"
proof -
  have c: "ancestor_chain example_db org_c [org_b, org_a]"
    by (simp add: ancestor_chain_Cons ancestor_chain_Nil parent_def example_defs)
  have r: "ancestor_chain example_db org_a []"
    by (simp add: ancestor_chain_Nil parent_def example_defs)
  have n: "org_name org_a = ''A''" "org_name org_b = ''B''"
    by (simp_all add: example_defs)
  from ancestors_chain_and_ancestor_tree[of 3 example_db org_c "[org_b, org_a]"] c
  have "ancestors 3 example_db org_c = Some [org_b, org_a] \<and>
        ancestor_tree 3 example_db org_c = Some (PyStr ''A :: B'')"
    by (simp add: n)
  moreover from ancestors_chain_and_ancestor_tree[of 3 example_db org_a "[]"] r
  have "ancestors 3 example_db org_a = Some [] \<and>
        ancestor_tree 3 example_db org_a = Some PyNone"
    by simp
  ultimately show ?thesis using c r by simp
qed

text \<open>
  C10. For a root organization \<open>ancestor_tree\<close> returns \<open>None\<close>, which is no string at all,
  whereas \<open>organization_tree\<close> of an author without organization returns the empty
  string: the two empty results are different values.
\<close>

theorem root_ancestor_tree_is_None_not_empty_string:
  assumes "parent db org = None" and "organization db a = None"
  shows "ancestor_tree (Suc n) db org = Some PyNone \<and>
         (\<forall>s. ancestor_tree (Suc n) db org \<noteq> Some (PyStr s)) \<and>
         organization_tree m db a = Some [] \<and>
         PyNone \<noteq> PyStr []"
  using assms by (simp add: ancestor_tree_def organization_tree_def)

theorem root_ancestor_tree_is_None_not_empty_string_witness:
  "parent example_db org_a = None \<and> organization example_db author_y = None \<and>
   ancestor_tree 1 example_db org_a = Some PyNone \<and>
   organization_tree 1 example_db author_y = Some []"
proof -
  have p: "parent example_db org_a = None"
    by (simp add: parent_def example_defs)
  have y: "organization example_db author_y = None"
    by (simp add: organization_def example_defs)
  from root_ancestor_tree_is_None_not_empty_string[OF p y, of 0 1] p y
  show ?thesis by simp
qed

section \<open>Facts about the descendant walk\<close>

lemma descendants_loop_Some:
  "descendants_loop f cs l = Some r \<longleftrightarrow>
     (\<forall>c\<in>set cs. f c \<noteq> None) \<and> r = l @ concat (map (\<lambda>c. c # the (f c)) cs)"
proof (induction cs arbitrary: l)
  case Nil
  show ?case by auto
next
  case (Cons c cs)
  show ?case
  proof (cases "f c")
    case None
    then show ?thesis by auto
  next
    case (Some d)
    then show ?thesis by (simp add: Cons.IH)
  qed
qed

lemma descendants_Suc_Some:
  "descendants (Suc n) db g = Some ds \<longleftrightarrow>
     (\<forall>c\<in>set (children db g). descendants n db c \<noteq> None) \<and>
     ds = concat (map (\<lambda>c. c # the (descendants n db c)) (children db g))"
  by (cases "children db g = []") (auto simp: descendants_loop_Some)

lemma descendants_Suc_None:
  "descendants (Suc n) db g = None \<longleftrightarrow> (\<exists>c\<in>set (children db g). descendants n db c = None)"
proof -
  have "descendants (Suc n) db g = None \<longleftrightarrow> \<not> (\<exists>ds. descendants (Suc n) db g = Some ds)"
    by auto
  also have "\<dots> \<longleftrightarrow> (\<exists>c\<in>set (children db g). descendants n db c = None)"
    unfolding descendants_Suc_Some by auto
  finally show ?thesis .
qed

lemma descendants_0 [simp]: "descendants 0 db g = None"
  by simp

declare descendants.simps [simp del]

lemma descendants_mono_Suc:
  "descendants n db g = Some ds \<Longrightarrow> descendants (Suc n) db g = Some ds"
proof (induction n arbitrary: g ds)
  case 0
  then show ?case by simp
next
  case (Suc n)
  from Suc.prems have all: "\<forall>c\<in>set (children db g). descendants n db c \<noteq> None"
    and ds: "ds = concat (map (\<lambda>c. c # the (descendants n db c)) (children db g))"
    by (simp_all add: descendants_Suc_Some)
  have eq: "descendants (Suc n) db c = descendants n db c" if "c \<in> set (children db g)" for c
  proof -
    from all that obtain d where "descendants n db c = Some d" by auto
    with Suc.IH[OF this] show ?thesis by simp
  qed
  have m: "map (\<lambda>c. c # the (descendants (Suc n) db c)) (children db g) =
        map (\<lambda>c. c # the (descendants n db c)) (children db g)"
    by (rule map_cong) (simp_all add: eq)
  show ?case
    unfolding descendants_Suc_Some[of "Suc n"] m using all ds eq by simp
qed

lemma descendants_mono:
  "descendants n db g = Some ds \<Longrightarrow> n \<le> m \<Longrightarrow> descendants m db g = Some ds"
proof (induction m)
  case 0
  then show ?case by simp
next
  case (Suc m)
  show ?case
  proof (cases "n = Suc m")
    case True
    with Suc.prems show ?thesis by (simp)
  next
    case False
    with Suc.prems have "n \<le> m" by simp
    with Suc have "descendants m db g = Some ds" by (simp)
    then show ?thesis by (rule descendants_mono_Suc)
  qed
qed

lemma ancestors_mono:
  "ancestors n db g = Some cs \<Longrightarrow> n \<le> m \<Longrightarrow> ancestors m db g = Some cs"
  using ancestors_is_chain ancestors_of_chain by (meson less_le_trans)

lemma descendants_on_cycle:
  "(g, g) \<in> (parent_rel db)\<^sup>+ \<Longrightarrow> descendants n db g = None"
proof (induction n arbitrary: g)
  case 0
  show ?case by simp
next
  case (Suc n)
  from cycle_step_back[OF Suc.prems] obtain c
    where c: "(c, g) \<in> parent_rel db" "(c, c) \<in> (parent_rel db)\<^sup>+"
    by (elim exE conjE)
  from c(1) have "c \<in> set (children db g)" by (rule child_of_parent_rel)
  moreover from c(2) have "descendants n db c = None" by (rule Suc.IH)
  ultimately show ?case unfolding descendants_Suc_None by (rule bexI[rotated])
qed

lemma children_in_table: "c \<in> set (children db g) \<Longrightarrow> c \<in> set (organization_table db)"
  by (simp add: children_def)

lemma common_depth:
  "(\<And>c. c \<in> set cs \<Longrightarrow> \<exists>n ds. descendants n db c = Some ds) \<Longrightarrow>
     \<exists>n. \<forall>c\<in>set cs. descendants n db c \<noteq> None"
proof (induction cs)
  case Nil
  show ?case by simp
next
  case (Cons c cs)
  from Cons.prems obtain k d where k: "descendants k db c = Some d" by (meson list.set_intros(1))
  from Cons.IH Cons.prems obtain m where m: "\<forall>x\<in>set cs. descendants m db x \<noteq> None"
    by (meson list.set_intros(2))
  have "\<forall>x\<in>set (c # cs). descendants (max k m) db x \<noteq> None"
  proof
    fix x assume "x \<in> set (c # cs)"
    then consider "x = c" | "x \<in> set cs" by auto
    then show "descendants (max k m) db x \<noteq> None"
    proof cases
      case 1
      with descendants_mono[OF k, of "max k m"] show ?thesis by simp
    next
      case 2
      with m obtain e where "descendants m db x = Some e" by auto
      from descendants_mono[OF this, of "max k m"] show ?thesis by simp
    qed
  qed
  then show ?case ..
qed

lemma on_reverse_path:
  "(g, p) \<in> ((parent_rel db)\<inverse>)\<^sup>* \<Longrightarrow> (p, g) \<in> (parent_rel db)\<^sup>*"
  by (simp add: rtrancl_converse)

lemma descendant_in_table:
  assumes "(p, g) \<in> (parent_rel db)\<^sup>*" "g \<in> set (organization_table db)"
  shows "p \<in> set (organization_table db)"
  using assms by (cases rule: converse_rtranclE) (simp_all add: parent_rel_range)

lemma descendants_returns:
  assumes wf: "wf_db db" and g: "g \<in> set (organization_table db)"
    and noc: "(g, g) \<notin> (parent_rel db)\<^sup>+"
  shows "\<exists>n ds. descendants n db g = Some ds"
proof (rule reach_induct[where r = "(parent_rel db)\<inverse>" and x = g
      and P = "\<lambda>g. \<exists>n ds. descendants n db g = Some ds"])
  show "finite ((parent_rel db)\<inverse>)" by (simp add: finite_parent_rel)
next
  fix p assume "(g, p) \<in> ((parent_rel db)\<inverse>)\<^sup>*"
  then have pg: "(p, g) \<in> (parent_rel db)\<^sup>*" by (rule on_reverse_path)
  show "(p, p) \<notin> ((parent_rel db)\<inverse>)\<^sup>+"
  proof
    assume "(p, p) \<in> ((parent_rel db)\<inverse>)\<^sup>+"
    then have "(p, p) \<in> (parent_rel db)\<^sup>+" by (simp add: trancl_converse)
    with single_valued_parent_rel pg have "(g, g) \<in> (parent_rel db)\<^sup>+"
      by (rule cycle_upwards)
    with noc show False ..
  qed
next
  fix p
  assume "(g, p) \<in> ((parent_rel db)\<inverse>)\<^sup>*"
    and IH: "\<And>q. (p, q) \<in> (parent_rel db)\<inverse> \<Longrightarrow> \<exists>n ds. descendants n db q = Some ds"
  then have "(p, g) \<in> (parent_rel db)\<^sup>*" by (simp add: on_reverse_path)
  then have p: "p \<in> set (organization_table db)" using g by (rule descendant_in_table)
  have "\<exists>n ds. descendants n db c = Some ds" if "c \<in> set (children db p)" for c
  proof -
    from that have "(c, p) \<in> parent_rel db" by (simp add: children_iff[OF wf p])
    then have "(p, c) \<in> (parent_rel db)\<inverse>" by simp
    then show ?thesis by (rule IH)
  qed
  then obtain n where "\<forall>c\<in>set (children db p). descendants n db c \<noteq> None"
    using common_depth by meson
  then have "descendants (Suc n) db p =
      Some (concat (map (\<lambda>c. c # the (descendants n db c)) (children db p)))"
    by (simp add: descendants_Suc_Some)
  then show "\<exists>n ds. descendants n db p = Some ds" by (intro exI)
qed

lemma proper_ancestor_via_parent:
  "(d, g) \<in> r\<^sup>+ \<longleftrightarrow> (\<exists>c. (d, c) \<in> r\<^sup>* \<and> (c, g) \<in> r)"
  by (meson rtrancl_into_trancl1 tranclD2)

lemma descendants_set:
  assumes wf: "wf_db db"
  shows "g \<in> set (organization_table db) \<Longrightarrow> descendants n db g = Some ds \<Longrightarrow>
     set ds = {d. (d, g) \<in> (parent_rel db)\<^sup>+}"
proof (induction n arbitrary: g ds)
  case 0
  then show ?case by simp
next
  case (Suc n)
  from Suc.prems(2) have all: "\<forall>c\<in>set (children db g). descendants n db c \<noteq> None"
    and ds: "ds = concat (map (\<lambda>c. c # the (descendants n db c)) (children db g))"
    by (simp_all add: descendants_Suc_Some)
  have sub: "set (c # the (descendants n db c)) = {d. (d, c) \<in> (parent_rel db)\<^sup>*}"
    if c: "c \<in> set (children db g)" for c
  proof -
    from all c obtain dc where dc: "descendants n db c = Some dc" by auto
    from c have "c \<in> set (organization_table db)" by (rule children_in_table)
    from Suc.IH[OF this dc] have "set dc = {d. (d, c) \<in> (parent_rel db)\<^sup>+}" .
    with dc show ?thesis by (auto simp: rtrancl_eq_or_trancl)
  qed
  have "set ds = (\<Union>c\<in>set (children db g). set (c # the (descendants n db c)))"
    unfolding ds by simp
  also have "\<dots> = (\<Union>c\<in>set (children db g). {d. (d, c) \<in> (parent_rel db)\<^sup>*})"
    using sub by simp
  also have "\<dots> = {d. \<exists>c. (d, c) \<in> (parent_rel db)\<^sup>* \<and> (c, g) \<in> parent_rel db}"
    using children_iff[OF wf Suc.prems(1)] by auto
  also have "\<dots> = {d. (d, g) \<in> (parent_rel db)\<^sup>+}"
    by (simp add: proper_ancestor_via_parent)
  finally show ?case .
qed

lemma siblings_apart:
  assumes sv: "single_valued r" and c1: "(c1, g) \<in> r" and c2: "(c2, g) \<in> r"
    and ne: "c1 \<noteq> c2" and noc: "(g, g) \<notin> r\<^sup>+"
  shows "(c1, c2) \<notin> r\<^sup>*"
proof
  assume "(c1, c2) \<in> r\<^sup>*"
  with ne have "(c1, c2) \<in> r\<^sup>+" by (simp add: rtrancl_eq_or_trancl)
  then obtain z where z: "(c1, z) \<in> r" "(z, c2) \<in> r\<^sup>*" by (meson tranclD)
  from sv z(1) c1 have "z = g" by (rule single_valuedD)
  with z(2) c2 have "(g, g) \<in> r\<^sup>+" by (simp add: rtrancl_into_trancl1)
  with noc show False ..
qed

lemma subtrees_disjoint:
  assumes sv: "single_valued r" and c1: "(c1, g) \<in> r" and c2: "(c2, g) \<in> r"
    and ne: "c1 \<noteq> c2" and noc: "(g, g) \<notin> r\<^sup>+"
  shows "{d. (d, c1) \<in> r\<^sup>*} \<inter> {d. (d, c2) \<in> r\<^sup>*} = {}"
proof -
  have False if d1: "(d, c1) \<in> r\<^sup>*" and d2: "(d, c2) \<in> r\<^sup>*" for d
  proof -
    from single_valued_confluent[OF sv d1 d2]
    show False
    proof
      assume "(c1, c2) \<in> r\<^sup>*"
      with siblings_apart[OF sv c1 c2 ne noc] show False ..
    next
      assume "(c2, c1) \<in> r\<^sup>*"
      with siblings_apart[OF sv c2 c1 ne[symmetric] noc] show False ..
    qed
  qed
  then show ?thesis by auto
qed

lemma distinct_table: "wf_db db \<Longrightarrow> distinct (organization_table db)"
  by (simp add: wf_db_def distinct_map)

lemma descendants_distinct:
  assumes wf: "wf_db db"
  shows "g \<in> set (organization_table db) \<Longrightarrow> descendants n db g = Some ds \<Longrightarrow> distinct ds"
proof (induction n arbitrary: g ds)
  case 0
  then show ?case by simp
next
  case (Suc n)
  let ?r = "parent_rel db"
  let ?F = "\<lambda>c. c # the (descendants n db c)"
  from Suc.prems(2) have all: "\<forall>c\<in>set (children db g). descendants n db c \<noteq> None"
    and ds: "ds = concat (map ?F (children db g))"
    by (simp_all add: descendants_Suc_Some)
  from Suc.prems(2) have noc: "(g, g) \<notin> ?r\<^sup>+"
    using descendants_on_cycle[of g db "Suc n"] by auto
  have rel: "(c, g) \<in> ?r" if "c \<in> set (children db g)" for c
    using that children_iff[OF wf Suc.prems(1)] by simp
  have F: "distinct (?F c) \<and> set (?F c) = {d. (d, c) \<in> ?r\<^sup>*}"
    if c: "c \<in> set (children db g)" for c
  proof -
    from all c obtain dc where dc: "descendants n db c = Some dc" by auto
    from c have ct: "c \<in> set (organization_table db)" by (rule children_in_table)
    from Suc.IH[OF ct dc] have 1: "distinct dc" .
    from descendants_set[OF wf ct dc] have 2: "set dc = {d. (d, c) \<in> ?r\<^sup>+}" .
    from dc have "(c, c) \<notin> ?r\<^sup>+" using descendants_on_cycle[of c db n] by auto
    with 1 2 dc show ?thesis by (auto simp: rtrancl_eq_or_trancl)
  qed
  have "distinct (children db g)"
    unfolding children_def using distinct_table[OF wf] by (rule distinct_filter)
  moreover have "inj_on ?F (set (children db g))" by (rule inj_onI) simp
  ultimately have 1: "distinct (map ?F (children db g))" by (simp add: distinct_map)
  have 2: "distinct ys" if "ys \<in> set (map ?F (children db g))" for ys
    using that F by auto
  have 3: "set ys \<inter> set zs = {}"
    if "ys \<in> set (map ?F (children db g))" "zs \<in> set (map ?F (children db g))" "ys \<noteq> zs"
    for ys zs
  proof -
    from that obtain c1 c2 where c: "c1 \<in> set (children db g)" "c2 \<in> set (children db g)"
      and y: "ys = ?F c1" and z: "zs = ?F c2" by auto
    with that(3) have ne: "c1 \<noteq> c2" by auto
    from subtrees_disjoint[OF single_valued_parent_rel rel[OF c(1)] rel[OF c(2)] ne noc]
    show ?thesis using F[OF c(1)] F[OF c(2)] y z by simp
  qed
  from 1 2 3 show ?case unfolding ds by (rule distinct_concat)
qed

lemma descendants_block:
  "descendants n db g = Some ds \<Longrightarrow> d \<in> set ds \<Longrightarrow>
     \<exists>pre dd post. ds = pre @ d # dd @ post \<and> descendants n db d = Some dd"
proof (induction n arbitrary: g ds)
  case 0
  then show ?case by simp
next
  case (Suc n)
  let ?F = "\<lambda>c. c # the (descendants n db c)"
  from Suc.prems(1) have all: "\<forall>c\<in>set (children db g). descendants n db c \<noteq> None"
    and ds: "ds = concat (map ?F (children db g))"
    by (simp_all add: descendants_Suc_Some)
  from Suc.prems(2) ds obtain c where c: "c \<in> set (children db g)" and d: "d \<in> set (?F c)"
    by auto
  from all c obtain dc where dc: "descendants n db c = Some dc" by auto
  from c obtain cs1 cs2 where split: "children db g = cs1 @ c # cs2"
    by (meson split_list)
  have dsplit: "ds = concat (map ?F cs1) @ (c # dc) @ concat (map ?F cs2)"
    unfolding ds split using dc by simp
  from d dc consider "d = c" | "d \<in> set dc" by auto
  then show ?case
  proof cases
    case 1
    from dc have "descendants (Suc n) db c = Some dc" by (rule descendants_mono_Suc)
    with 1 dsplit have "ds = concat (map ?F cs1) @ d # dc @ concat (map ?F cs2) \<and>
        descendants (Suc n) db d = Some dc" by simp
    then show ?thesis by (intro exI)
  next
    case 2
    from Suc.IH[OF dc 2] obtain pre dd post
      where p: "dc = pre @ d # dd @ post" and dd: "descendants n db d = Some dd"
      by (elim exE conjE)
    from dd have "descendants (Suc n) db d = Some dd" by (rule descendants_mono_Suc)
    with p dsplit have "ds = (concat (map ?F cs1) @ c # pre) @ d # dd @ (post @ concat (map ?F cs2)) \<and>
        descendants (Suc n) db d = Some dd" by simp
    then show ?thesis by (intro exI)
  qed
qed

lemma children_rel_converse:
  assumes "wf_db db"
  shows "children_rel db = (parent_rel db)\<inverse>"
proof (rule set_eqI)
  fix x :: "organization \<times> organization"
  obtain p c where x: "x = (p, c)" by (cases x)
  show "x \<in> children_rel db \<longleftrightarrow> x \<in> (parent_rel db)\<inverse>"
  proof
    assume "x \<in> children_rel db"
    with x have "p \<in> set (organization_table db)" "c \<in> set (children db p)"
      by (simp_all add: children_rel_def)
    with children_iff[OF assms, of p c] x show "x \<in> (parent_rel db)\<inverse>" by simp
  next
    assume "x \<in> (parent_rel db)\<inverse>"
    with x have cp: "(c, p) \<in> parent_rel db" by simp
    from parent_rel_range[OF cp] child_of_parent_rel[OF cp] x
    show "x \<in> children_rel db" by (simp add: children_rel_def)
  qed
qed

lemma children_path:
  assumes "wf_db db"
  shows "(p, c) \<in> (children_rel db)\<^sup>+ \<longleftrightarrow> (c, p) \<in> (parent_rel db)\<^sup>+"
  by (simp add: children_rel_converse[OF assms] trancl_converse)

lemma descendants_in_table:
  "descendants n db g = Some ds \<Longrightarrow> d \<in> set ds \<Longrightarrow> d \<in> set (organization_table db)"
proof (induction n arbitrary: g ds)
  case 0
  then show ?case by simp
next
  case (Suc n)
  from Suc.prems(1) have all: "\<forall>c\<in>set (children db g). descendants n db c \<noteq> None"
    and ds: "ds = concat (map (\<lambda>c. c # the (descendants n db c)) (children db g))"
    by (simp_all add: descendants_Suc_Some)
  from Suc.prems(2) ds obtain c where c: "c \<in> set (children db g)"
    and d: "d = c \<or> d \<in> set (the (descendants n db c))" by auto
  from all c obtain dc where dc: "descendants n db c = Some dc" by auto
  from d show ?case
  proof
    assume "d = c"
    with c show ?thesis by (simp add: children_in_table)
  next
    assume "d \<in> set (the (descendants n db c))"
    with dc have "d \<in> set dc" by simp
    with dc show ?thesis by (rule Suc.IH)
  qed
qed

lemma inj_on_org_id: "wf_db db \<Longrightarrow> inj_on org_id (set (organization_table db))"
  by (simp add: wf_db_def distinct_map)

lemma rank_along_path:
  assumes "\<And>a b. (a, b) \<in> r \<Longrightarrow> f a < (f b :: int)"
  shows "(a, b) \<in> r\<^sup>+ \<Longrightarrow> f a < f b"
proof (induction rule: trancl_induct)
  case (base y)
  then show ?case by (rule assms)
next
  case (step y z)
  from assms[OF step.hyps(2)] step.IH show ?case by simp
qed

lemma no_cycle_by_rank:
  assumes "\<And>a b. (a, b) \<in> r \<Longrightarrow> f a < (f b :: int)"
  shows "(x, x) \<notin> r\<^sup>+"
  using rank_along_path[of r f x x] assms by fastforce

lemma example_children_rank:
  "(a, b) \<in> children_rel example_db \<Longrightarrow> org_id a < org_id b"
  by (auto simp: children_rel_def children_def example_defs)

lemma example_acyclic: "(x, x) \<notin> (children_rel example_db)\<^sup>+"
  using example_children_rank by (rule no_cycle_by_rank)

lemma example_wf: "wf_db example_db"
  by (simp add: wf_db_def example_defs)

lemma descendant_tree_loop_None:
  "descendant_tree_loop f db cs l = None \<longleftrightarrow> (\<exists>c\<in>set cs. f c = None)"
  by (induction cs arbitrary: l) (auto split: option.splits)

lemma descendant_tree_None_iff:
  "descendant_tree n db g = None \<longleftrightarrow> descendants n db g = None"
proof (induction n arbitrary: g)
  case 0
  show ?case by simp
next
  case (Suc n)
  show ?case by (simp add: descendant_tree_loop_None descendants_Suc_None Suc.IH)
qed

section \<open>Descendants in depth-first pre-order\<close>

text \<open>
  C3. For a stored organization that is not its own descendant, \<open>descendants\<close> returns
  (at every depth from some depth on) one list \<open>ds\<close> that is built child by child, in
  child order, as the child followed by the child's own descendants; every organization
  of \<open>ds\<close> is directly followed in \<open>ds\<close> by the block of its own descendants; \<open>ds\<close> holds
  exactly the organizations reachable through the children relation. \<open>descendant_ids\<close> is
  \<open>ds\<close> mapped to ids in the same order, has no duplicates, consists exactly of the ids of
  the organizations that have \<open>g\<close> as a proper ancestor, and does not contain the id of
  \<open>g\<close> itself.
\<close>

theorem descendants_preorder:
  assumes wf: "wf_db db" and g: "g \<in> set (organization_table db)"
    and noc: "(g, g) \<notin> (children_rel db)\<^sup>+"
  shows "\<exists>n ds.
     (\<forall>m\<ge>n. descendants m db g = Some ds \<and>
            descendant_ids m db g = Some (map org_id ds) \<and>
            (\<forall>c\<in>set (children db g). descendants m db c \<noteq> None) \<and>
            ds = concat (map (\<lambda>c. c # the (descendants m db c)) (children db g))) \<and>
     (\<forall>d\<in>set ds. \<exists>pre dd post.
            ds = pre @ d # dd @ post \<and> descendants n db d = Some dd \<and>
            set dd = {e. (d, e) \<in> (children_rel db)\<^sup>+}) \<and>
     set ds = {d. (g, d) \<in> (children_rel db)\<^sup>+} \<and>
     distinct (map org_id ds) \<and>
     set (map org_id ds) = org_id ` {d. (d, g) \<in> (parent_rel db)\<^sup>+} \<and>
     org_id g \<notin> set (map org_id ds)"
proof -
  from noc have noc': "(g, g) \<notin> (parent_rel db)\<^sup>+" by (simp add: children_path[OF wf])
  from descendants_returns[OF wf g noc'] obtain n ds where n: "descendants n db g = Some ds"
    by (elim exE)
  have 1: "descendants m db g = Some ds \<and>
            descendant_ids m db g = Some (map org_id ds) \<and>
            (\<forall>c\<in>set (children db g). descendants m db c \<noteq> None) \<and>
            ds = concat (map (\<lambda>c. c # the (descendants m db c)) (children db g))"
    if "n \<le> m" for m
  proof -
    from n that have m: "descendants m db g = Some ds" by (rule descendants_mono)
    then have "descendants (Suc m) db g = Some ds" by (rule descendants_mono_Suc)
    then have "(\<forall>c\<in>set (children db g). descendants m db c \<noteq> None) \<and>
        ds = concat (map (\<lambda>c. c # the (descendants m db c)) (children db g))"
      unfolding descendants_Suc_Some .
    with m show ?thesis by (simp add: descendant_ids_def)
  qed
  have sub: "set ds \<subseteq> set (organization_table db)"
    using descendants_in_table[OF n] by auto
  have 2: "\<exists>pre dd post. ds = pre @ d # dd @ post \<and> descendants n db d = Some dd \<and>
            set dd = {e. (d, e) \<in> (children_rel db)\<^sup>+}" if d: "d \<in> set ds" for d
  proof -
    from descendants_block[OF n d] obtain pre dd post
      where b: "ds = pre @ d # dd @ post" "descendants n db d = Some dd"
      by (elim exE conjE)
    from d sub have "d \<in> set (organization_table db)" by auto
    from descendants_set[OF wf this b(2)] have "set dd = {e. (d, e) \<in> (children_rel db)\<^sup>+}"
      by (simp add: children_path[OF wf])
    with b show ?thesis by (intro exI conjI)
  qed
  have 3: "set ds = {d. (d, g) \<in> (parent_rel db)\<^sup>+}" using wf g n by (rule descendants_set)
  then have s3: "set ds = {d. (g, d) \<in> (children_rel db)\<^sup>+}" by (simp add: children_path[OF wf])
  have "distinct ds" using wf g n by (rule descendants_distinct)
  moreover have io: "inj_on org_id (set ds)"
    using inj_on_org_id[OF wf] sub by (rule inj_on_subset)
  ultimately have 4: "distinct (map org_id ds)" by (simp add: distinct_map)
  have 5: "set (map org_id ds) = org_id ` {d. (d, g) \<in> (parent_rel db)\<^sup>+}"
    using 3 by simp
  from 3 noc' have "g \<notin> set ds" by simp
  with inj_on_org_id[OF wf] sub g have 6: "org_id g \<notin> set (map org_id ds)"
    by (auto simp: inj_on_def)
  from 1 2 s3 4 5 6 show ?thesis by blast
qed

theorem descendants_preorder_witness:
  "wf_db example_db \<and> org_a \<in> set (organization_table example_db) \<and>
   (org_a, org_a) \<notin> (children_rel example_db)\<^sup>+ \<and>
   descendants 3 example_db org_a = Some [org_b, org_c] \<and>
   descendant_ids 3 example_db org_a = Some [2, 3] \<and>
   (\<exists>n ds.
     (\<forall>m\<ge>n. descendants m example_db org_a = Some ds \<and>
            descendant_ids m example_db org_a = Some (map org_id ds) \<and>
            (\<forall>c\<in>set (children example_db org_a). descendants m example_db c \<noteq> None) \<and>
            ds = concat (map (\<lambda>c. c # the (descendants m example_db c))
                   (children example_db org_a))) \<and>
     (\<forall>d\<in>set ds. \<exists>pre dd post.
            ds = pre @ d # dd @ post \<and> descendants n example_db d = Some dd \<and>
            set dd = {e. (d, e) \<in> (children_rel example_db)\<^sup>+}) \<and>
     set ds = {d. (org_a, d) \<in> (children_rel example_db)\<^sup>+} \<and>
     distinct (map org_id ds) \<and>
     set (map org_id ds) = org_id ` {d. (d, org_a) \<in> (parent_rel example_db)\<^sup>+} \<and>
     org_id org_a \<notin> set (map org_id ds))"
proof -
  have a: "org_a \<in> set (organization_table example_db)"
    by (simp add: example_db_def)
  have d: "descendants 3 example_db org_a = Some [org_b, org_c]"
    by (simp add: numeral_3_eq_3 descendants.simps children_def example_defs)
  then have i: "descendant_ids 3 example_db org_a = Some [2, 3]"
    by (simp add: descendant_ids_def org_b_def org_c_def)
  from descendants_preorder[OF example_wf a example_acyclic] example_wf a example_acyclic d i
  show ?thesis by (intro conjI)
qed

section \<open>Which traversals return\<close>

lemma chain_not_cyclic:
  assumes "ancestor_chain db g cs"
  shows "\<not> reaches_cycle db g"
proof
  assume "reaches_cycle db g"
  then have "ancestors (Suc (length cs)) db g = None" by (rule ancestors_reaches_cycle)
  moreover from assms have "ancestors (Suc (length cs)) db g = Some cs"
    by (rule ancestors_of_chain) simp
  ultimately show False by simp
qed

lemma ancestors_returns:
  assumes g: "g \<in> set (organization_table db)" and noc: "\<not> reaches_cycle db g"
  shows "\<exists>n. \<forall>m\<ge>n. ancestors m db g \<noteq> None \<and>
           (\<forall>a. organization db a = Some g \<longrightarrow>
              organization_tree m db a \<noteq> None \<and> organization_ids m db a \<noteq> None)"
proof -
  from chain_of_acyclic[OF g noc] obtain cs where cs: "ancestor_chain db g cs" by (elim exE)
  have "ancestors m db g \<noteq> None \<and>
           (\<forall>a. organization db a = Some g \<longrightarrow>
              organization_tree m db a \<noteq> None \<and> organization_ids m db a \<noteq> None)"
    if "Suc (length cs) \<le> m" for m
  proof -
    from that have "length cs < m" by simp
    with cs have "ancestors m db g = Some cs" by (rule ancestors_of_chain)
    then show ?thesis by (simp add: organization_tree_def organization_ids_def)
  qed
  then show ?thesis by blast
qed

lemma descendants_returns_from:
  assumes wf: "wf_db db" and g: "g \<in> set (organization_table db)"
    and noc: "(g, g) \<notin> (children_rel db)\<^sup>+"
  shows "\<exists>n. \<forall>m\<ge>n. descendants m db g \<noteq> None \<and> descendant_tree m db g \<noteq> None"
proof -
  from noc have "(g, g) \<notin> (parent_rel db)\<^sup>+" by (simp add: children_path[OF wf])
  from descendants_returns[OF wf g this] obtain n ds where n: "descendants n db g = Some ds"
    by (elim exE)
  have "descendants m db g \<noteq> None \<and> descendant_tree m db g \<noteq> None" if "n \<le> m" for m
  proof -
    from n that have "descendants m db g = Some ds" by (rule descendants_mono)
    then show ?thesis by (simp add: descendant_tree_None_iff)
  qed
  then show ?thesis by blast
qed

text \<open>
  C7. For a stored organization whose parent chain does not lead into a cycle, \<open>ancestors\<close>
  returns, and so do \<open>organization_tree\<close> and \<open>organization_ids\<close> of every author of that
  organization; for a stored organization that is not its own descendant, \<open>descendants\<close>
  and \<open>descendant_tree\<close> return. Here a method returns when every depth from some depth on
  gives a result. Nothing in the methods bounds the depth or detects a cycle: when the
  parent chain leads into a cycle, respectively when the organization is its own
  descendant, no depth is enough, and the same methods never return.
\<close>

theorem traversals_return_unless_cyclic:
  assumes wf: "wf_db db" and g: "g \<in> set (organization_table db)"
  shows
   "(\<not> reaches_cycle db g \<longrightarrow>
       (\<exists>n. \<forall>m\<ge>n. ancestors m db g \<noteq> None \<and>
           (\<forall>a. organization db a = Some g \<longrightarrow>
              organization_tree m db a \<noteq> None \<and> organization_ids m db a \<noteq> None))) \<and>
    ((g, g) \<notin> (children_rel db)\<^sup>+ \<longrightarrow>
       (\<exists>n. \<forall>m\<ge>n. descendants m db g \<noteq> None \<and> descendant_tree m db g \<noteq> None)) \<and>
    (reaches_cycle db g \<longrightarrow>
       (\<forall>n. ancestors n db g = None \<and>
           (\<forall>a. organization db a = Some g \<longrightarrow>
              organization_tree n db a = None \<and> organization_ids n db a = None))) \<and>
    ((g, g) \<in> (children_rel db)\<^sup>+ \<longrightarrow>
       (\<forall>n. descendants n db g = None \<and> descendant_tree n db g = None))"
proof (intro conjI impI)
  assume "\<not> reaches_cycle db g"
  with g show "\<exists>n. \<forall>m\<ge>n. ancestors m db g \<noteq> None \<and>
           (\<forall>a. organization db a = Some g \<longrightarrow>
              organization_tree m db a \<noteq> None \<and> organization_ids m db a \<noteq> None)"
    by (rule ancestors_returns)
next
  assume "(g, g) \<notin> (children_rel db)\<^sup>+"
  with wf g show "\<exists>n. \<forall>m\<ge>n. descendants m db g \<noteq> None \<and> descendant_tree m db g \<noteq> None"
    by (rule descendants_returns_from)
next
  assume "reaches_cycle db g"
  then have "ancestors n db g = None" for n by (rule ancestors_reaches_cycle)
  then show "\<forall>n. ancestors n db g = None \<and>
           (\<forall>a. organization db a = Some g \<longrightarrow>
              organization_tree n db a = None \<and> organization_ids n db a = None)"
    by (simp add: organization_tree_def organization_ids_def)
next
  assume "(g, g) \<in> (children_rel db)\<^sup>+"
  then have "(g, g) \<in> (parent_rel db)\<^sup>+" by (simp add: children_path[OF wf])
  then have "descendants n db g = None" for n by (rule descendants_on_cycle)
  then show "\<forall>n. descendants n db g = None \<and> descendant_tree n db g = None"
    by (simp add: descendant_tree_None_iff)
qed

lemma cyclic_wf: "wf_db cyclic_db"
  by (simp add: wf_db_def cyclic_defs)

lemma cyclic_pq: "(org_p, org_q) \<in> parent_rel cyclic_db"
  by (simp add: parent_rel_def parent_def cyclic_defs)

lemma cyclic_qp: "(org_q, org_p) \<in> parent_rel cyclic_db"
  by (simp add: parent_rel_def parent_def cyclic_defs)

lemma cyclic_pp: "(org_p, org_p) \<in> (parent_rel cyclic_db)\<^sup>+"
  using cyclic_pq cyclic_qp by (rule trancl_into_trancl[OF r_into_trancl])

theorem traversals_return_unless_cyclic_witness:
  "wf_db example_db \<and> org_c \<in> set (organization_table example_db) \<and>
   \<not> reaches_cycle example_db org_c \<and>
   (org_c, org_c) \<notin> (children_rel example_db)\<^sup>+ \<and>
   (\<exists>n. \<forall>m\<ge>n. ancestors m example_db org_c \<noteq> None \<and>
       (\<forall>a. organization example_db a = Some org_c \<longrightarrow>
          organization_tree m example_db a \<noteq> None \<and> organization_ids m example_db a \<noteq> None)) \<and>
   (\<exists>n. \<forall>m\<ge>n. descendants m example_db org_c \<noteq> None \<and>
       descendant_tree m example_db org_c \<noteq> None) \<and>
   wf_db cyclic_db \<and> org_p \<in> set (organization_table cyclic_db) \<and>
   reaches_cycle cyclic_db org_p \<and>
   (org_p, org_p) \<in> (children_rel cyclic_db)\<^sup>+ \<and>
   organization cyclic_db author_z = Some org_p \<and>
   (\<forall>n. ancestors n cyclic_db org_p = None \<and> descendants n cyclic_db org_p = None \<and>
        descendant_tree n cyclic_db org_p = None \<and>
        organization_tree n cyclic_db author_z = None \<and>
        organization_ids n cyclic_db author_z = None)"
proof -
  have c: "org_c \<in> set (organization_table example_db)"
    by (simp add: example_db_def)
  have "ancestor_chain example_db org_c [org_b, org_a]"
    by (simp add: ancestor_chain_Cons ancestor_chain_Nil parent_def example_defs)
  then have nc: "\<not> reaches_cycle example_db org_c" by (rule chain_not_cyclic)
  note ex = traversals_return_unless_cyclic[OF example_wf c]
  have p: "org_p \<in> set (organization_table cyclic_db)"
    by (simp add: cyclic_db_def)
  have rc: "reaches_cycle cyclic_db org_p"
    using rtrancl.rtrancl_refl cyclic_pp by (rule reaches_cycleI)
  have cc: "(org_p, org_p) \<in> (children_rel cyclic_db)\<^sup>+"
    using cyclic_pp by (simp add: children_path[OF cyclic_wf])
  have z: "organization cyclic_db author_z = Some org_p"
    by (simp add: organization_def cyclic_defs)
  note cy = traversals_return_unless_cyclic[OF cyclic_wf p]
  from ex nc example_acyclic[of org_c]
  have 1: "\<exists>n. \<forall>m\<ge>n. ancestors m example_db org_c \<noteq> None \<and>
       (\<forall>a. organization example_db a = Some org_c \<longrightarrow>
          organization_tree m example_db a \<noteq> None \<and> organization_ids m example_db a \<noteq> None)"
    and 2: "\<exists>n. \<forall>m\<ge>n. descendants m example_db org_c \<noteq> None \<and>
       descendant_tree m example_db org_c \<noteq> None"
    by simp_all
  from cy rc cc z
  have 3: "\<forall>n. ancestors n cyclic_db org_p = None \<and> descendants n cyclic_db org_p = None \<and>
        descendant_tree n cyclic_db org_p = None \<and>
        organization_tree n cyclic_db author_z = None \<and>
        organization_ids n cyclic_db author_z = None"
    by simp
  from example_wf c nc example_acyclic[of org_c] 1 2 cyclic_wf p rc cc z 3
  show ?thesis by (intro conjI)
qed

section \<open>Authors counted by an organization\<close>

lemma authors_disjoint:
  "org_id d \<noteq> org_id g \<Longrightarrow> set (authors db d) \<inter> set (authors db g) = {}"
  by (auto simp: authors_def)

text \<open>
  C4. \<open>number_of_authors\<close> is the number of author rows whose \<open>organization_id\<close> is the id
  of this organization. No author of a descendant organization is among the authors
  counted.
\<close>

theorem number_of_authors_direct_members_only:
  assumes wf: "wf_db db"
  shows "number_of_authors db g =
           card {a \<in> set (author_table db). author_organization_id a = Some (org_id g)} \<and>
         (\<forall>n ds d a. g \<in> set (organization_table db) \<and> descendants n db g = Some ds \<and>
             d \<in> set ds \<and> a \<in> set (authors db d) \<longrightarrow> a \<notin> set (authors db g))"
proof (intro conjI allI impI)
  from wf have "distinct (author_table db)" by (simp add: wf_db_def distinct_map)
  then have "length (filter (\<lambda>a. author_organization_id a = Some (org_id g)) (author_table db)) =
      card ({a. author_organization_id a = Some (org_id g)} \<inter> set (author_table db))"
    by (rule distinct_length_filter)
  also have "{a. author_organization_id a = Some (org_id g)} \<inter> set (author_table db) =
      {a \<in> set (author_table db). author_organization_id a = Some (org_id g)}" by auto
  finally show "number_of_authors db g =
      card {a \<in> set (author_table db). author_organization_id a = Some (org_id g)}"
    by (simp add: number_of_authors_def authors_def)
next
  fix n ds d a
  assume h: "g \<in> set (organization_table db) \<and> descendants n db g = Some ds \<and>
             d \<in> set ds \<and> a \<in> set (authors db d)"
  then have g: "g \<in> set (organization_table db)" and n: "descendants n db g = Some ds"
    and d: "d \<in> set ds" and a: "a \<in> set (authors db d)" by simp_all
  from n have noc: "(g, g) \<notin> (parent_rel db)\<^sup>+"
    using descendants_on_cycle[of g db n] by auto
  from descendants_set[OF wf g n] d have "(d, g) \<in> (parent_rel db)\<^sup>+" by simp
  with noc have "d \<noteq> g" by auto
  moreover from n d have "d \<in> set (organization_table db)" by (rule descendants_in_table)
  ultimately have "org_id d \<noteq> org_id g"
    using inj_on_org_id[OF wf] g by (auto simp: inj_on_def)
  from authors_disjoint[OF this, of db] a show "a \<notin> set (authors db g)" by auto
qed

theorem number_of_authors_direct_members_only_witness:
  "wf_db example_db \<and> org_a \<in> set (organization_table example_db) \<and>
   descendants 3 example_db org_a = Some [org_b, org_c] \<and>
   author_x \<in> set (authors example_db org_c) \<and>
   author_x \<notin> set (authors example_db org_a) \<and>
   number_of_authors example_db org_a = 0 \<and>
   number_of_authors example_db org_c = 1 \<and>
   card {a \<in> set (author_table example_db). author_organization_id a = Some (org_id org_a)} = 0"
proof -
  have a: "org_a \<in> set (organization_table example_db)"
    by (simp add: example_db_def)
  have d: "descendants 3 example_db org_a = Some [org_b, org_c]"
    by (simp add: numeral_3_eq_3 descendants.simps children_def example_defs)
  have x: "author_x \<in> set (authors example_db org_c)"
    by (simp add: authors_def example_defs)
  have n: "number_of_authors example_db org_a = 0" "number_of_authors example_db org_c = 1"
    by (simp_all add: number_of_authors_def authors_def example_defs)
  note t = number_of_authors_direct_members_only[OF example_wf, of org_a]
  from t[THEN conjunct2, rule_format, of 3 "[org_b, org_c]" org_c author_x] a d x
  have "author_x \<notin> set (authors example_db org_a)" by simp
  moreover from t[THEN conjunct1] n
  have "card {a \<in> set (author_table example_db).
      author_organization_id a = Some (org_id org_a)} = 0" by simp
  ultimately show ?thesis using example_wf a d x n by (intro conjI)
qed

section \<open>Coauthors are directed\<close>

lemma coauthors_iff:
  "b \<in> set (coauthors db a) \<longleftrightarrow>
     b \<in> set (author_table db) \<and>
     \<lparr>co_author_id = author_id a, co_coauthor_id = author_id b\<rparr> \<in> set (coauthor_table db)"
proof
  assume "b \<in> set (coauthors db a)"
  then obtain e where e: "e \<in> set (coauthor_table db)" "co_author_id e = author_id a"
    "author_id b = co_coauthor_id e" and b: "b \<in> set (author_table db)"
    by (auto simp: coauthors_def)
  from e(2,3) have "e = \<lparr>co_author_id = author_id a, co_coauthor_id = author_id b\<rparr>" by simp
  with e(1) b show "b \<in> set (author_table db) \<and>
     \<lparr>co_author_id = author_id a, co_coauthor_id = author_id b\<rparr> \<in> set (coauthor_table db)"
    by simp
next
  assume "b \<in> set (author_table db) \<and>
     \<lparr>co_author_id = author_id a, co_coauthor_id = author_id b\<rparr> \<in> set (coauthor_table db)"
  then show "b \<in> set (coauthors db a)"
    by (force simp: coauthors_def)
qed

text \<open>
  C6. For two different authors \<open>x\<close> and \<open>y\<close>, storing the single edge from \<open>x\<close> to \<open>y\<close> makes
  \<open>y\<close> one of the coauthors of \<open>x\<close> and leaves the coauthors of \<open>y\<close> as they were. The
  coauthors of an author are exactly the stored authors at the \<open>coauthor_id\<close> end of an
  edge that has this author at its \<open>author_id\<close> end.
\<close>

theorem coauthors_follow_outgoing_edges_only:
  assumes "y \<in> set (author_table db)" and "author_id x \<noteq> author_id y"
  shows "y \<in> set (coauthors (insert_coauthor_edge db x y) x) \<and>
         coauthors (insert_coauthor_edge db x y) y = coauthors db y \<and>
         (\<forall>a b. b \<in> set (coauthors db a) \<longleftrightarrow>
            b \<in> set (author_table db) \<and>
            \<lparr>co_author_id = author_id a, co_coauthor_id = author_id b\<rparr>
              \<in> set (coauthor_table db))"
proof (intro conjI allI)
  from assms(1) show "y \<in> set (coauthors (insert_coauthor_edge db x y) x)"
    by (simp add: coauthors_iff insert_coauthor_edge_def)
next
  from assms(2) show "coauthors (insert_coauthor_edge db x y) y = coauthors db y"
    by (simp add: coauthors_def insert_coauthor_edge_def)
next
  fix a b
  show "b \<in> set (coauthors db a) \<longleftrightarrow>
            b \<in> set (author_table db) \<and>
            \<lparr>co_author_id = author_id a, co_coauthor_id = author_id b\<rparr>
              \<in> set (coauthor_table db)"
    by (rule coauthors_iff)
qed

theorem coauthors_follow_outgoing_edges_only_witness:
  "author_y \<in> set (author_table example_db) \<and> author_id author_x \<noteq> author_id author_y \<and>
   coauthors example_db author_x = [] \<and> coauthors example_db author_y = [] \<and>
   coauthors (insert_coauthor_edge example_db author_x author_y) author_x = [author_y] \<and>
   coauthors (insert_coauthor_edge example_db author_x author_y) author_y = []"
proof -
  have y: "author_y \<in> set (author_table example_db)"
    by (simp add: example_db_def)
  have ne: "author_id author_x \<noteq> author_id author_y"
    by (simp add: example_defs)
  have e: "coauthors example_db author_x = []" "coauthors example_db author_y = []"
    by (simp_all add: coauthors_def example_defs)
  have xy: "coauthors (insert_coauthor_edge example_db author_x author_y) author_x = [author_y]"
    by (simp add: coauthors_def insert_coauthor_edge_def example_defs)
  from coauthors_follow_outgoing_edges_only[OF y ne] e
  have "coauthors (insert_coauthor_edge example_db author_x author_y) author_y = []"
    by simp
  with y ne e xy show ?thesis by (intro conjI)
qed

section \<open>The order of the citation series\<close>

lemma sorted_by_unique_key:
  assumes m: "mset xs = mset ys" and d: "distinct (map f xs)"
    and sx: "sorted (map f xs)" and sy: "sorted (map f ys)"
  shows "xs = ys"
proof -
  from m have mm: "mset (map f xs) = mset (map f ys)" by simp
  from mset_eq_imp_distinct_iff[OF mm] d have dy: "distinct (map f ys)" by simp
  from mm have "set (map f xs) = set (map f ys)" by (rule mset_eq_setD)
  with sx sy d dy have e: "map f xs = map f ys" by (simp add: sorted_distinct_set_unique)
  from m have "set xs = set ys" by (rule mset_eq_setD)
  moreover from d have "inj_on f (set xs)" by (simp add: distinct_map)
  ultimately have "inj_on f (set xs \<union> set ys)" by simp
  with e show ?thesis by (simp add: inj_on_map_eq_map)
qed

lemma years_of_one_author_distinct:
  assumes "distinct (map (\<lambda>r. (acy_author_id r, acy_year r)) rows)"
  shows "distinct (map acy_year (filter (\<lambda>r. acy_author_id r = k) rows))"
proof -
  let ?F = "filter (\<lambda>r. acy_author_id r = k) rows"
  from assms have "distinct (map (\<lambda>r. (acy_author_id r, acy_year r)) ?F)"
    by (rule distinct_map_filter)
  then have d: "distinct ?F" and i: "inj_on (\<lambda>r. (acy_author_id r, acy_year r)) (set ?F)"
    by (simp_all add: distinct_map)
  have "inj_on acy_year (set ?F)"
  proof (rule inj_onI)
    fix r r' assume r: "r \<in> set ?F" "r' \<in> set ?F" and y: "acy_year r = acy_year r'"
    from r have "acy_author_id r = acy_author_id r'" by simp
    with y have "(acy_author_id r, acy_year r) = (acy_author_id r', acy_year r')" by simp
    with i r show "r = r'" by (simp add: inj_on_def)
  qed
  with d show ?thesis by (simp add: distinct_map)
qed

lemma any_order_is_a_store_order:
  assumes "mset ys = mset xs"
  shows "\<exists>so. returns_the_rows so \<and> so xs = ys"
proof -
  let ?so = "\<lambda>zs. if mset zs = mset ys then ys else zs"
  have "returns_the_rows ?so" by (simp add: returns_the_rows_def)
  moreover from assms have "?so xs = ys" by simp
  ultimately show ?thesis by blast
qed

text \<open>
  C9. Whatever order the store returns rows in, the citation series of an author is read
  in ascending order of the year and holds exactly the rows of that author; as the key
  (author, year) is unique, the list that is read does not depend on the store's order at
  all. On the series of a publication the declaration imposes no order: it is read as the
  store returns it, so every arrangement of the publication's rows is what some store
  returns.
\<close>

theorem citations_per_year_order:
  assumes so: "returns_the_rows store_order"
  shows
   "sorted (map acy_year (Author_citations_per_year store_order db a)) \<and>
    mset (Author_citations_per_year store_order db a) =
      mset (filter (\<lambda>r. acy_author_id r = author_id a)
             (author_citations_per_year_table db)) \<and>
    (distinct (map (\<lambda>r. (acy_author_id r, acy_year r)) (author_citations_per_year_table db)) \<longrightarrow>
       Author_citations_per_year store_order db a =
         Author_citations_per_year (\<lambda>xs. xs) db a) \<and>
    (\<forall>ys. mset ys =
            mset (filter (\<lambda>r. pcy_publication_id r = pub_id p)
                   (publication_citations_per_year_table db)) \<longrightarrow>
       (\<exists>so'. returns_the_rows so' \<and> Publication_citations_per_year so' db p = ys))"
proof (intro conjI impI allI)
  let ?F = "filter (\<lambda>r. acy_author_id r = author_id a) (author_citations_per_year_table db)"
  show "sorted (map acy_year (Author_citations_per_year store_order db a))"
    by (simp add: Author_citations_per_year_def)
  from so show m: "mset (Author_citations_per_year store_order db a) = mset ?F"
    by (simp add: Author_citations_per_year_def returns_the_rows_def)
  {
    assume "distinct (map (\<lambda>r. (acy_author_id r, acy_year r))
      (author_citations_per_year_table db))"
    then have dF: "distinct (map acy_year ?F)" by (rule years_of_one_author_distinct)
    have "mset (map acy_year (Author_citations_per_year store_order db a)) =
        mset (map acy_year ?F)" using m by simp
    from mset_eq_imp_distinct_iff[OF this] dF
    have d: "distinct (map acy_year (Author_citations_per_year store_order db a))"
      by simp
    have "mset (Author_citations_per_year store_order db a) =
        mset (Author_citations_per_year (\<lambda>xs. xs) db a)"
      using m by (simp add: Author_citations_per_year_def)
    then show "Author_citations_per_year store_order db a =
        Author_citations_per_year (\<lambda>xs. xs) db a"
      using d by (rule sorted_by_unique_key) (simp_all add: Author_citations_per_year_def)
  }
  fix ys
  assume "mset ys = mset (filter (\<lambda>r. pcy_publication_id r = pub_id p)
      (publication_citations_per_year_table db))"
  then show "\<exists>so'. returns_the_rows so' \<and> Publication_citations_per_year so' db p = ys"
    unfolding Publication_citations_per_year_def by (rule any_order_is_a_store_order)
qed

theorem citations_per_year_order_witness:
  "returns_the_rows (rev :: author_citations_per_year list \<Rightarrow> author_citations_per_year list) \<and>
   distinct (map (\<lambda>r. (acy_author_id r, acy_year r))
     (author_citations_per_year_table series_db)) \<and>
   Author_citations_per_year rev series_db author_y = [acy_2014, acy_2015] \<and>
   Author_citations_per_year (\<lambda>xs. xs) series_db author_y = [acy_2014, acy_2015] \<and>
   sorted (map acy_year (Author_citations_per_year rev series_db author_y)) \<and>
   (\<exists>so'. returns_the_rows so' \<and>
      Publication_citations_per_year so' series_db pub_1 = [pcy_2015, pcy_2014]) \<and>
   (\<exists>so'. returns_the_rows so' \<and>
      Publication_citations_per_year so' series_db pub_1 = [pcy_2014, pcy_2015])"
proof -
  have r: "returns_the_rows
      (rev :: author_citations_per_year list \<Rightarrow> author_citations_per_year list)"
    by (simp add: returns_the_rows_def)
  have d: "distinct (map (\<lambda>r. (acy_author_id r, acy_year r))
     (author_citations_per_year_table series_db))"
    by (simp add: series_defs)
  have i: "Author_citations_per_year (\<lambda>xs. xs) series_db author_y = [acy_2014, acy_2015]"
    by (simp add: Author_citations_per_year_def series_defs)
  have f: "filter (\<lambda>r. pcy_publication_id r = pub_id pub_1)
      (publication_citations_per_year_table series_db) = [pcy_2015, pcy_2014]"
    by (simp add: series_defs)
  note t = citations_per_year_order[OF r, of series_db author_y pub_1]
  from t d i have 1: "Author_citations_per_year rev series_db author_y = [acy_2014, acy_2015]"
    by simp
  from t have 2: "sorted (map acy_year (Author_citations_per_year rev series_db author_y))"
    by (rule conjunct1)
  from t[THEN conjunct2, THEN conjunct2, THEN conjunct2, rule_format,
      of "[pcy_2015, pcy_2014]"] f
  have 3: "\<exists>so'. returns_the_rows so' \<and>
      Publication_citations_per_year so' series_db pub_1 = [pcy_2015, pcy_2014]"
    by simp
  from t[THEN conjunct2, THEN conjunct2, THEN conjunct2, rule_format,
      of "[pcy_2014, pcy_2015]"] f
  have 4: "\<exists>so'. returns_the_rows so' \<and>
      Publication_citations_per_year so' series_db pub_1 = [pcy_2014, pcy_2015]"
    by simp
  from r d 1 i 2 3 4 show ?thesis by (intro conjI)
qed

section \<open>The benchmark of a suggestion\<close>

text \<open>
  C8. The declaration of \<open>Suggestions.benchmark_id\<close> gives no \<open>nullable\<close> argument and the
  column is no primary key, so the column is nullable, like \<open>author_id\<close>: a suggestion
  that names no benchmark is accepted.
\<close>

theorem suggestion_without_benchmark_accepted:
  "nullable Suggestions_benchmark_id \<and> nullable Suggestions_author_id \<and>
   accepts_row Suggestions_columns [''scholar_website'', ''rationale'', ''created'']"
  by (simp add: nullable_def accepts_row_def Suggestions_columns_def Suggestions_id_def
      Suggestions_author_id_def Suggestions_benchmark_id_def Suggestions_scholar_website_def
      Suggestions_rationale_def Suggestions_created_def)

end
